theory Spec2Isabelle
  imports Main "HOL-Library.Char_ord" "HOL-Library.List_Lexorder" "HOL-Library.Multiset"
begin

section \<open>Python string primitives used by \<open>scripts/build_docs_index.py\<close>\<close>

text \<open>
  A Python \<open>str\<close> is modelled as a \<open>string\<close>: the list of its code points, restricted to
  the code points below 256 that a \<open>char\<close> can hold. The library methods the script calls
  are written out below, each on that range.
\<close>

abbreviation LF :: char where "LF \<equiv> CHR 0x0A"
abbreviation CR :: char where "CR \<equiv> CHR 0x0D"
abbreviation DQ :: char where "DQ \<equiv> CHR 0x22"

text \<open>\<open>str.isspace\<close> on one character: tab, LF, VT, FF, CR, FS, GS, RS, US, space, NEL, NBSP.\<close>

definition isspace :: "char \<Rightarrow> bool" where
  "isspace c = (c \<in> set [CHR 0x09, CHR 0x0A, CHR 0x0B, CHR 0x0C, CHR 0x0D,
                          CHR 0x1C, CHR 0x1D, CHR 0x1E, CHR 0x1F, CHR 0x20, CHR 0x85, CHR 0xA0])"

text \<open>The line boundaries of \<open>str.splitlines\<close>: LF, CR, VT, FF, FS, GS, RS, NEL
  (and CR LF, which counts as one boundary).\<close>

definition is_linebreak :: "char \<Rightarrow> bool" where
  "is_linebreak c = (c \<in> set [CHR 0x0A, CHR 0x0D, CHR 0x0B, CHR 0x0C,
                               CHR 0x1C, CHR 0x1D, CHR 0x1E, CHR 0x85])"

text \<open>\<open>s.startswith(p)\<close>.\<close>

definition startswith :: "string \<Rightarrow> string \<Rightarrow> bool" where
  "startswith s p = (take (length p) s = p)"

text \<open>\<open>s.strip()\<close> and \<open>s.strip(chars)\<close>: both ends lose every character of the stripped class.\<close>

definition strip_while :: "(char \<Rightarrow> bool) \<Rightarrow> string \<Rightarrow> string" where
  "strip_while P s = rev (dropWhile P (rev (dropWhile P s)))"

definition str_strip :: "string \<Rightarrow> string" where
  "str_strip s = strip_while isspace s"

definition strip_chars :: "string \<Rightarrow> string \<Rightarrow> string" where
  "strip_chars chars s = strip_while (\<lambda>c. c \<in> set chars) s"

text \<open>The rest of the text after the boundary at its head: CR LF is consumed as one.\<close>

fun skip_break :: "string \<Rightarrow> string" where
  "skip_break [] = []"
| "skip_break (c # cs) = (if c = CR \<and> take 1 cs = [LF] then drop 1 cs else cs)"

text \<open>\<open>s.splitlines()\<close>: cut at every line boundary, boundaries dropped, no empty last line
  after a final boundary.\<close>

function splitlines :: "string \<Rightarrow> string list" where
  "splitlines s =
     (if s = [] then []
      else takeWhile (\<lambda>c. \<not> is_linebreak c) s
             # splitlines (skip_break (dropWhile (\<lambda>c. \<not> is_linebreak c) s)))"
  by pat_completeness auto

lemma length_skip_break: "length (skip_break s) \<le> length s - 1"
  by (cases s) auto

lemma splitlines_decreases:
  "s \<noteq> [] \<Longrightarrow> length (skip_break (dropWhile P s)) < length s"
proof (cases "dropWhile P s")
  case Nil
  assume "s \<noteq> []"
  then have "0 < length s" by simp
  moreover have "length (skip_break (dropWhile P s)) = 0" by (simp only: Nil skip_break.simps list.size)
  ultimately show ?thesis by (simp only:)
next
  case (Cons c cs)
  assume "s \<noteq> []"
  have "length (skip_break (dropWhile P s)) \<le> length (dropWhile P s) - 1"
    by (rule length_skip_break)
  also have "\<dots> < length (dropWhile P s)" using Cons by simp
  also have "\<dots> \<le> length s" by (rule length_dropWhile_le)
  finally show ?thesis .
qed

termination splitlines
  by (relation "measure length") (simp_all add: splitlines_decreases)

declare splitlines.simps [simp del]

text \<open>\<open>sep.join(xs)\<close>.\<close>

fun join :: "string \<Rightarrow> string list \<Rightarrow> string" where
  "join sep [] = []"
| "join sep [x] = x"
| "join sep (x # y # ys) = x @ sep @ join sep (y # ys)"

text \<open>\<open>s.split(sep, 1)\<close> for a one-character separator: cut at the first occurrence only.\<close>

definition split_once :: "char \<Rightarrow> string \<Rightarrow> string list" where
  "split_once sep s =
     (if sep \<in> set s then [takeWhile (\<lambda>c. c \<noteq> sep) s, drop 1 (dropWhile (\<lambda>c. c \<noteq> sep) s)]
      else [s])"

section \<open>Errors\<close>

datatype error = ValueError | FileNotFoundError | IsADirectoryError | UnicodeDecodeError

text \<open>The tuple assignment \<open>key, value = xs\<close> raises \<open>ValueError\<close> unless \<open>xs\<close> has two items.\<close>

fun unpack2 :: "string list \<Rightarrow> error + (string \<times> string)" where
  "unpack2 [k, v] = Inr (k, v)"
| "unpack2 _ = Inl ValueError"

section \<open>\<open>parse_frontmatter\<close>\<close>

type_synonym frontmatter = "string \<rightharpoonup> string"

text \<open>The loop of lines 17-20: the first index \<open>i \<ge> 1\<close> whose line strips to \<open>---\<close>.
  \<open>find_end_from i ls\<close> walks \<open>ls = lines[i:]\<close>.\<close>

fun find_end_from :: "nat \<Rightarrow> string list \<Rightarrow> nat option" where
  "find_end_from i [] = None"
| "find_end_from i (l # ls) = (if str_strip l = ''---'' then Some i else find_end_from (Suc i) ls)"

definition find_end_index :: "string list \<Rightarrow> nat option" where
  "find_end_index lines = find_end_from 1 (drop 1 lines)"

text \<open>The loop of lines 29-33 over the header lines, threading the dictionary.\<close>

fun parse_lines :: "string list \<Rightarrow> frontmatter \<Rightarrow> error + frontmatter" where
  "parse_lines [] fm = Inr fm"
| "parse_lines (line # rest) fm =
     (if CHR '':'' \<notin> set line then parse_lines rest fm
      else (case unpack2 (split_once (CHR '':'') line) of
              Inl e \<Rightarrow> Inl e
            | Inr (key, val) \<Rightarrow>
                parse_lines rest (fm(str_strip key \<mapsto> strip_chars [DQ] (str_strip val)))))"

definition parse_frontmatter :: "string \<Rightarrow> error + (frontmatter \<times> string)" where
  "parse_frontmatter text =
     (if \<not> startswith text ''---'' then Inr (Map.empty, text)
      else
        let lines = splitlines text in
        (case find_end_index lines of
           None \<Rightarrow> Inr (Map.empty, text)
         | Some end_index \<Rightarrow>
             (case parse_lines (take (end_index - 1) (drop 1 lines)) Map.empty of
                Inl e \<Rightarrow> Inl e
              | Inr fm \<Rightarrow> Inr (fm, join [LF] (drop (end_index + 1) lines)))))"

section \<open>The file system snapshot\<close>

text \<open>
  A snapshot of the tree under the root: a regular file with the text that \<open>read_text\<close>
  returns for it, a regular file whose bytes do not decode as UTF-8, or a directory with
  its entries in the order the operating system enumerates them (an order \<open>iterdir\<close> and
  \<open>glob\<close> do not fix). Entry names are compared as on a POSIX file system, case by case.
\<close>

datatype node = TextFile string | BinaryFile | Dir "(string \<times> node) list"

text \<open>\<open>p.is_dir()\<close> and the entry \<open>p / name\<close> (\<open>None\<close> when \<open>p\<close> has no such entry).\<close>

fun is_dir :: "node \<Rightarrow> bool" where
  "is_dir (Dir es) = True"
| "is_dir _ = False"

fun child :: "node \<Rightarrow> string \<Rightarrow> node option" where
  "child (Dir es) n = map_of es n"
| "child _ n = None"

text \<open>\<open>p.read_text(encoding="utf-8")\<close> on the node at \<open>p\<close>, \<open>None\<close> when nothing is there.\<close>

fun read_text :: "node option \<Rightarrow> error + string" where
  "read_text None = Inl FileNotFoundError"
| "read_text (Some (TextFile s)) = Inr s"
| "read_text (Some BinaryFile) = Inl UnicodeDecodeError"
| "read_text (Some (Dir es)) = Inl IsADirectoryError"

text \<open>\<open>s.endswith(p)\<close>, and \<open>p.glob("*.md")\<close>: the entries of a directory whose name ends in
  \<open>.md\<close>; nothing when \<open>p\<close> is not a directory.\<close>

definition endswith :: "string \<Rightarrow> string \<Rightarrow> bool" where
  "endswith s p = (length p \<le> length s \<and> drop (length s - length p) s = p)"

fun glob_md :: "node \<Rightarrow> (string \<times> node) list" where
  "glob_md (Dir es) = filter (\<lambda>e. endswith (fst e) ''.md'') es"
| "glob_md _ = []"

section \<open>\<open>infer_title_from_markdown\<close>\<close>

text \<open>\<open>s.rfind(c)\<close> and \<open>PurePath.stem\<close> of a file name: the name up to its last dot, unless
  that dot is the first or the last character.\<close>

definition rfind :: "char \<Rightarrow> string \<Rightarrow> nat option" where
  "rfind c s =
     (if c \<in> set s then Some (length s - 1 - length (takeWhile (\<lambda>d. d \<noteq> c) (rev s))) else None)"

definition path_stem :: "string \<Rightarrow> string" where
  "path_stem nm =
     (case rfind (CHR ''.'') nm of
        None \<Rightarrow> nm
      | Some i \<Rightarrow> if 0 < i \<and> i < length nm - 1 then take i nm else nm)"

text \<open>\<open>s.replace(old, new)\<close> (every occurrence, left to right) and \<open>s.replace(old, new, 1)\<close>
  (the first occurrence only).\<close>

function str_replace :: "string \<Rightarrow> string \<Rightarrow> string \<Rightarrow> string" where
  "str_replace old new s =
     (if old = [] then new @ concat (map (\<lambda>c. c # new) s)
      else if s = [] then []
      else if startswith s old then new @ str_replace old new (drop (length old) s)
      else hd s # str_replace old new (tl s))"
  by pat_completeness auto

termination str_replace
  by (relation "measure (\<lambda>(old, new, s). length s)") auto

declare str_replace.simps [simp del]

fun replace_first :: "string \<Rightarrow> string \<Rightarrow> string \<Rightarrow> string" where
  "replace_first old new [] = (if old = [] then new else [])"
| "replace_first old new (c # cs) =
     (if startswith (c # cs) old then new @ drop (length old) (c # cs)
      else c # replace_first old new cs)"

text \<open>
  \<open>s.title()\<close> can leave the range of a \<open>char\<close>: the title case of the micro sign and of y
  with diaeresis lies beyond code point 255. Its result, and with it every title, is a
  list of code points of any size.
\<close>

type_synonym ustring = "nat list"

definition code_points :: "string \<Rightarrow> ustring" where
  "code_points s = map of_char s"

text \<open>The Unicode data \<open>s.title()\<close> uses, on the code points below 256: which characters
  are cased (the ASCII letters, the two ordinal indicators, the micro sign and the Latin-1
  letters), the lower case of a character, and its title case (two code points for the
  sharp s).\<close>

definition is_cased :: "char \<Rightarrow> bool" where
  "is_cased c =
     (let n = of_char c :: nat in
      (65 \<le> n \<and> n \<le> 90) \<or> (97 \<le> n \<and> n \<le> 122) \<or> n = 170 \<or> n = 181 \<or> n = 186 \<or>
      (192 \<le> n \<and> n \<le> 214) \<or> (216 \<le> n \<and> n \<le> 246) \<or> (248 \<le> n \<and> n \<le> 255))"

definition to_lower :: "char \<Rightarrow> nat" where
  "to_lower c =
     (let n = of_char c :: nat in
      if (65 \<le> n \<and> n \<le> 90) \<or> (192 \<le> n \<and> n \<le> 214) \<or> (216 \<le> n \<and> n \<le> 222)
      then n + 32 else n)"

definition to_title :: "char \<Rightarrow> ustring" where
  "to_title c =
     (let n = of_char c :: nat in
      if 97 \<le> n \<and> n \<le> 122 then [n - 32]
      else if n = 181 then [924]
      else if n = 223 then [83, 115]
      else if (224 \<le> n \<and> n \<le> 246) \<or> (248 \<le> n \<and> n \<le> 254) then [n - 32]
      else if n = 255 then [376]
      else [n])"

text \<open>\<open>s.title()\<close>: a character that follows a cased character is lowered, any other
  character is title-cased; the flag is "the previous character is cased".\<close>

fun title_from :: "bool \<Rightarrow> string \<Rightarrow> ustring" where
  "title_from previous_is_cased [] = []"
| "title_from previous_is_cased (c # cs) =
     (if previous_is_cased then [to_lower c] else to_title c) @ title_from (is_cased c) cs"

definition str_title :: "string \<Rightarrow> ustring" where
  "str_title s = title_from False s"

text \<open>The fallback of lines 46 and 48: \<open>path.stem.replace("-", " ").title()\<close>.\<close>

definition title_from_name :: "string \<Rightarrow> ustring" where
  "title_from_name nm = str_title (str_replace ''-'' '' '' (path_stem nm))"

text \<open>The loop of lines 41-44 over the lines of the file.\<close>

fun first_heading :: "string list \<Rightarrow> string option" where
  "first_heading [] = None"
| "first_heading (l # ls) =
     (let line = str_strip l in
      if startswith line ''# '' then Some (str_strip (replace_first ''# '' [] line))
      else first_heading ls)"

text \<open>\<open>infer_title_from_markdown(path)\<close>, for a path with final component \<open>nm\<close> and the
  node \<open>nd\<close> the snapshot has there. Only \<open>FileNotFoundError\<close> is caught.\<close>

definition infer_title_from_markdown :: "string \<Rightarrow> node option \<Rightarrow> error + ustring" where
  "infer_title_from_markdown nm nd =
     (case read_text nd of
        Inl FileNotFoundError \<Rightarrow> Inr (title_from_name nm)
      | Inl e \<Rightarrow> Inl e
      | Inr text \<Rightarrow>
          (case first_heading (splitlines text) of
             Some t \<Rightarrow> Inr (code_points t)
           | None \<Rightarrow> Inr (title_from_name nm)))"

section \<open>\<open>build_index\<close>\<close>

text \<open>The dictionaries of lines 78-81 and 85-90, one field for each key
  (\<open>ref_title\<close> and \<open>ref_file\<close> for the keys \<open>title\<close> and \<open>file\<close>).\<close>

record reference =
  ref_title :: ustring
  ref_file :: string

record skill =
  name :: string
  folder :: string
  description :: string
  references :: "reference list"

text \<open>\<open>d.get(key, default)\<close>.\<close>

definition dict_get :: "frontmatter \<Rightarrow> string \<Rightarrow> string \<Rightarrow> string" where
  "dict_get d k dflt = (case d k of Some v \<Rightarrow> v | None \<Rightarrow> dflt)"

text \<open>The loop of lines 76-82 over the sorted matches, threading the list \<open>references\<close>.\<close>

fun references_loop :: "(string \<times> node) list \<Rightarrow> reference list \<Rightarrow> error + reference list" where
  "references_loop [] refs = Inr refs"
| "references_loop (r # rest) refs =
     (case infer_title_from_markdown (fst r) (Some (snd r)) of
        Inl e \<Rightarrow> Inl e
      | Inr t \<Rightarrow>
          references_loop rest (refs @ [\<lparr>ref_title = t, ref_file = ''references/'' @ fst r\<rparr>]))"

text \<open>Lines 73-82: \<open>sorted\<close> orders the sibling paths by their names, code point by code
  point.\<close>

definition collect_references :: "node \<Rightarrow> error + reference list" where
  "collect_references skill_dir =
     (case child skill_dir ''references'' of
        None \<Rightarrow> Inr []
      | Some references_dir \<Rightarrow> references_loop (sort_key fst (glob_md references_dir)) [])"

definition reserved_names :: "string list" where
  "reserved_names = [''docs'', ''scripts'', ''template'', ''.git'', ''__pycache__'']"

text \<open>The loop of lines 56-91 over the sorted entries of the root, threading \<open>skills\<close>.\<close>

fun skills_loop :: "(string \<times> node) list \<Rightarrow> skill list \<Rightarrow> error + skill list" where
  "skills_loop [] skills = Inr skills"
| "skills_loop (d # rest) skills =
     (if \<not> is_dir (snd d) then skills_loop rest skills
      else if fst d \<in> set reserved_names then skills_loop rest skills
      else
        (case child (snd d) ''SKILL.md'' of
           None \<Rightarrow> skills_loop rest skills
         | Some skill_md \<Rightarrow>
             (case read_text (Some skill_md) of
                Inl e \<Rightarrow> Inl e
              | Inr text \<Rightarrow>
                  (case parse_frontmatter text of
                     Inl e \<Rightarrow> Inl e
                   | Inr (fm, body) \<Rightarrow>
                       (case collect_references (snd d) of
                          Inl e \<Rightarrow> Inl e
                        | Inr refs \<Rightarrow>
                            skills_loop rest
                              (skills @
                               [\<lparr>name = dict_get fm ''name'' (fst d),
                                 folder = fst d,
                                 description = str_strip (dict_get fm ''description'' []),
                                 references = refs\<rparr>]))))))"

text \<open>\<open>build_index(root)\<close>, for the entries of the root directory.\<close>

definition build_index :: "(string \<times> node) list \<Rightarrow> error + skill list" where
  "build_index root = skills_loop (sort_key fst root) []"

section \<open>\<open>main\<close>\<close>

text \<open>The text that lines 106-107 write to \<open>docs/skills.json\<close>, for the serializer
  \<open>json.dumps\<close> (a function of the list of records) taken as a parameter.\<close>

definition index_text :: "(skill list \<Rightarrow> string) \<Rightarrow> (string \<times> node) list \<Rightarrow> error + string" where
  "index_text dumps root =
     (case build_index root of Inl e \<Rightarrow> Inl e | Inr skills \<Rightarrow> Inr (dumps skills))"

section \<open>Notions the claims are stated with\<close>

text \<open>The characters a list of lines takes up, one boundary counted for each line.\<close>

definition line_weight :: "string list \<Rightarrow> nat" where
  "line_weight ls = sum_list (map length ls) + length ls"

text \<open>The spec's words for the value: one layer of double quotes is removed, and only when
  a double quote stands at both ends.\<close>

definition spec_unquote_one_layer :: "string \<Rightarrow> string" where
  "spec_unquote_one_layer v =
     (if 2 \<le> length v \<and> hd v = DQ \<and> last v = DQ then butlast (tl v) else v)"

text \<open>The characters at the borders of the cased ranges, to try \<open>s.title()\<close> on: each
  one at the head of a word with \<open>X\<close> behind it, and each one behind \<open>a\<close>.\<close>

definition casing_probe :: string where
  "casing_probe =
     [CHR 0x40, CHR 0x41, CHR 0x5A, CHR 0x5B, CHR 0x60, CHR 0x61, CHR 0x7A, CHR 0x7B, CHR 0xA9, CHR 0xAA,
      CHR 0xAB, CHR 0xB4, CHR 0xB5, CHR 0xB6, CHR 0xB9, CHR 0xBA, CHR 0xBB, CHR 0xBF, CHR 0xC0, CHR 0xD6,
      CHR 0xD7, CHR 0xD8, CHR 0xDE, CHR 0xDF, CHR 0xE0, CHR 0xF6, CHR 0xF7, CHR 0xF8, CHR 0xFE, CHR 0xFF]"


text \<open>The entries of the root that get past the three guards of lines 58-65.\<close>

definition qualifies :: "string \<times> node \<Rightarrow> bool" where
  "qualifies d =
     (is_dir (snd d) \<and> fst d \<notin> set reserved_names \<and> child (snd d) ''SKILL.md'' \<noteq> None)"



text \<open>A record as the loop body builds it from one entry of \<open>ds\<close>.\<close>

definition built_from :: "(string \<times> node) list \<Rightarrow> skill \<Rightarrow> bool" where
  "built_from ds s =
     (\<exists>nd doc fm body.
        (folder s, nd) \<in> set ds \<and> qualifies (folder s, nd) \<and>
        child nd ''SKILL.md'' = Some (TextFile doc) \<and>
        parse_frontmatter doc = Inr (fm, body) \<and>
        collect_references nd = Inr (references s) \<and>
        name s = dict_get fm ''name'' (folder s) \<and>
        description s = str_strip (dict_get fm ''description'' []))"

text \<open>The tree with the entries of every directory in the stable order of their names: two
  enumerations of one file system, whose directories hold one entry for a name, have the
  same sorted tree.\<close>

primrec sorted_tree :: "node \<Rightarrow> node" where
  "sorted_tree (TextFile t) = TextFile t"
| "sorted_tree BinaryFile = BinaryFile"
| "sorted_tree (Dir es) = Dir (sort_key fst (map (map_prod id sorted_tree) es))"

text \<open>A root to run the index builder on: two skills, two reserved directories (one with an
  unreadable \<open>SKILL.md\<close>), a directory without \<open>SKILL.md\<close> and a plain file; and the same
  tree enumerated in another order.\<close>

definition example_root :: "(string \<times> node) list" where
  "example_root =
     [(''docs'', Dir [(''SKILL.md'', TextFile ''# docs'')]),
      (''b'', Dir [(''SKILL.md'', TextFile ''---\<newline>name:\<newline>---\<newline>'')]),
      (''scripts'', Dir [(''SKILL.md'', BinaryFile)]),
      (''empty'', Dir [(''notes.md'', TextFile ''# Notes'')]),
      (''a'', Dir [(''SKILL.md'', TextFile ''---\<newline>name: Alpha\<newline>description: desc\<newline>---\<newline>body''),
                  (''references'', Dir [(''two.md'', TextFile ''# Two''), (''one.md'', TextFile ''x''),
                                       (''n.txt'', BinaryFile)])]),
      (''README.md'', TextFile ''x'')]"

definition example_root_reordered :: "(string \<times> node) list" where
  "example_root_reordered =
     [(''README.md'', TextFile ''x''),
      (''a'', Dir [(''references'', Dir [(''n.txt'', BinaryFile), (''one.md'', TextFile ''x''),
                                       (''two.md'', TextFile ''# Two'')]),
                  (''SKILL.md'', TextFile ''---\<newline>name: Alpha\<newline>description: desc\<newline>---\<newline>body'')]),
      (''b'', Dir [(''SKILL.md'', TextFile ''---\<newline>name:\<newline>---\<newline>'')]),
      (''empty'', Dir [(''notes.md'', TextFile ''# Notes'')]),
      (''scripts'', Dir [(''SKILL.md'', BinaryFile)]),
      (''docs'', Dir [(''SKILL.md'', TextFile ''# docs'')])]"

section \<open>Facts about the parser's loops\<close>

lemma unpack2_split_once:
  "sep \<in> set s \<Longrightarrow>
     unpack2 (split_once sep s) =
       Inr (takeWhile (\<lambda>c. c \<noteq> sep) s, drop 1 (dropWhile (\<lambda>c. c \<noteq> sep) s))"
  by (simp add: split_once_def)

lemma map_add_cons_rev:
  "fm ++ map_of (rev (kv # R)) = fm(fst kv \<mapsto> snd kv) ++ map_of (rev R)"
proof -
  have "map_of (rev (kv # R)) = map_of [kv] ++ map_of (rev R)"
    by (simp only: rev.simps map_of_append)
  moreover have "fm ++ map_of [kv] = fm(fst kv \<mapsto> snd kv)"
    by (cases kv) (simp add: map_add_def fun_eq_iff)
  ultimately show ?thesis by (simp only: map_add_assoc)
qed

lemma parse_lines_eq:
  "parse_lines ls fm =
     Inr (fm ++ map_of (rev (map (\<lambda>l. (str_strip (takeWhile (\<lambda>c. c \<noteq> CHR '':'') l),
                                      strip_chars [DQ] (str_strip (drop 1 (dropWhile (\<lambda>c. c \<noteq> CHR '':'') l)))))
                             (filter (\<lambda>l. CHR '':'' \<in> set l) ls))))"
  (is "_ = Inr (fm ++ map_of (rev (map ?kv (filter ?P ls))))")
proof (induction ls arbitrary: fm)
  case Nil
  show ?case by simp
next
  case (Cons l ls)
  show ?case
  proof (cases "?P l")
    case False
    then show ?thesis using Cons.IH [of fm] by simp
  next
    case True
    have "parse_lines (l # ls) fm = parse_lines ls (fm(fst (?kv l) \<mapsto> snd (?kv l)))"
      using True by (simp add: unpack2_split_once)
    also have "\<dots> = Inr (fm(fst (?kv l) \<mapsto> snd (?kv l)) ++ map_of (rev (map ?kv (filter ?P ls))))"
      by (rule Cons.IH)
    also have "\<dots> = Inr (fm ++ map_of (rev (?kv l # map ?kv (filter ?P ls))))"
      by (simp only: map_add_cons_rev)
    also have "?kv l # map ?kv (filter ?P ls) = map ?kv (filter ?P (l # ls))"
      using True by simp
    finally show ?thesis .
  qed
qed

lemma find_end_from_Some:
  "find_end_from i ls = Some e \<Longrightarrow>
     i \<le> e \<and> e < i + length ls \<and> str_strip (ls ! (e - i)) = ''---'' \<and>
     (\<forall>j. j < e - i \<longrightarrow> str_strip (ls ! j) \<noteq> ''---'')"
proof (induction ls arbitrary: i)
  case Nil
  then show ?case by simp
next
  case (Cons l ls)
  show ?case
  proof (cases "str_strip l = ''---''")
    case True
    then show ?thesis using Cons.prems by simp
  next
    case False
    then have h: "find_end_from (Suc i) ls = Some e" using Cons.prems by simp
    from Cons.IH [OF h] have ih: "Suc i \<le> e" "e < Suc i + length ls"
      "str_strip (ls ! (e - Suc i)) = ''---''"
      "\<forall>j. j < e - Suc i \<longrightarrow> str_strip (ls ! j) \<noteq> ''---''" by simp_all
    have "e - i = Suc (e - Suc i)" using ih(1) by simp
    then show ?thesis using ih False by (auto simp: nth_Cons split: nat.splits)
  qed
qed

lemma find_end_from_None:
  "find_end_from i ls = None \<longleftrightarrow> (\<forall>l \<in> set ls. str_strip l \<noteq> ''---'')"
  by (induction ls arbitrary: i) auto

lemma find_end_index_Some:
  assumes "find_end_index lines = Some e"
  shows "1 \<le> e \<and> e < length lines \<and> str_strip (lines ! e) = ''---'' \<and>
         (\<forall>j. 1 \<le> j \<and> j < e \<longrightarrow> str_strip (lines ! j) \<noteq> ''---'')"
proof -
  from assms have h: "find_end_from 1 (drop 1 lines) = Some e" by (simp add: find_end_index_def)
  from find_end_from_Some [OF h]
  have a: "1 \<le> e" and b: "e < 1 + length (drop 1 lines)"
    and c: "str_strip (drop 1 lines ! (e - 1)) = ''---''"
    and d: "\<forall>j. j < e - 1 \<longrightarrow> str_strip (drop 1 lines ! j) \<noteq> ''---''" by simp_all
  from a b have e: "e < length lines" by simp
  have "drop 1 lines ! (e - 1) = lines ! e" using a e by simp
  moreover have "\<forall>j. 1 \<le> j \<and> j < e \<longrightarrow> str_strip (lines ! j) \<noteq> ''---''"
  proof (intro allI impI)
    fix j assume j: "1 \<le> j \<and> j < e"
    then have "j - 1 < e - 1" by arith
    with d have "str_strip (drop 1 lines ! (j - 1)) \<noteq> ''---''" by blast
    moreover have "drop 1 lines ! (j - 1) = lines ! j" using j e by simp
    ultimately show "str_strip (lines ! j) \<noteq> ''---''" by simp
  qed
  ultimately show ?thesis using a e c by simp
qed

lemma find_end_index_None:
  "find_end_index lines = None \<longleftrightarrow> (\<forall>l \<in> set (drop 1 lines). str_strip l \<noteq> ''---'')"
  by (simp add: find_end_index_def find_end_from_None)

lemma parse_frontmatter_success:
  assumes "startswith text ''---''" and "find_end_index (splitlines text) = Some e"
  shows "parse_frontmatter text =
           Inr (map_of (rev (map (\<lambda>l. (str_strip (takeWhile (\<lambda>c. c \<noteq> CHR '':'') l),
                                        strip_chars [DQ] (str_strip (drop 1 (dropWhile (\<lambda>c. c \<noteq> CHR '':'') l)))))
                             (filter (\<lambda>l. CHR '':'' \<in> set l) (take (e - 1) (drop 1 (splitlines text)))))),
                join [LF] (drop (Suc e) (splitlines text)))"
  using assms by (simp add: parse_frontmatter_def parse_lines_eq Let_def)

lemma splitlines_Nil: "splitlines [] = []"
  by (subst splitlines.simps) simp

lemma line_weight_splitlines: "line_weight (splitlines s) \<le> length s + 1"
proof (induction s rule: splitlines.induct)
  case (1 s)
  show ?case
  proof (cases "s = []")
    case True
    then show ?thesis by (simp add: splitlines.simps line_weight_def)
  next
    case False
    let ?t = "takeWhile (\<lambda>c. \<not> is_linebreak c) s"
    let ?d = "dropWhile (\<lambda>c. \<not> is_linebreak c) s"
    have split: "splitlines s = ?t # splitlines (skip_break ?d)"
      using False by (subst splitlines.simps) simp
    have len: "length ?t + length ?d = length s"
      by (metis length_append takeWhile_dropWhile_id)
    have ih: "line_weight (splitlines (skip_break ?d)) \<le> length (skip_break ?d) + 1"
      using 1 False by simp
    show ?thesis
    proof (cases "?d = []")
      case True
      have "skip_break ?d = []" by (simp only: True skip_break.simps)
      then have "splitlines (skip_break ?d) = []" by (simp only: splitlines_Nil)
      then show ?thesis using split len True by (simp add: line_weight_def)
    next
      case nonempty: False
      have "length (skip_break ?d) \<le> length ?d - 1" by (rule length_skip_break)
      moreover have "0 < length ?d" using nonempty by simp
      ultimately have "length (skip_break ?d) + 1 \<le> length ?d" by linarith
      with ih have "line_weight (splitlines (skip_break ?d)) \<le> length ?d" by linarith
      then show ?thesis using split len by (simp add: line_weight_def)
    qed
  qed
qed

lemma line_weight_drop: "line_weight (drop k ls) + min k (length ls) \<le> line_weight ls"
proof (induction ls arbitrary: k)
  case Nil
  show ?case by (simp add: line_weight_def)
next
  case (Cons l ls)
  show ?case
  proof (cases k)
    case 0
    then show ?thesis by simp
  next
    case (Suc k')
    then show ?thesis using Cons.IH [of k'] by (simp add: line_weight_def)
  qed
qed

lemma length_join_le: "length (join [LF] ls) \<le> line_weight ls"
  by (induction ls rule: induct_list012) (simp_all add: line_weight_def)

lemma success_body_shorter:
  assumes "find_end_index (splitlines text) = Some e"
  shows "length (join [LF] (drop (Suc e) (splitlines text))) < length text"
proof -
  let ?ls = "splitlines text"
  from find_end_index_Some [OF assms] have e: "1 \<le> e" "e < length ?ls" by simp_all
  have "length (join [LF] (drop (Suc e) ?ls)) \<le> line_weight (drop (Suc e) ?ls)"
    by (rule length_join_le)
  moreover have "line_weight (drop (Suc e) ?ls) + min (Suc e) (length ?ls) \<le> line_weight ?ls"
    by (rule line_weight_drop)
  moreover have "min (Suc e) (length ?ls) = Suc e" using e by simp
  moreover have "line_weight ?ls \<le> length text + 1" by (rule line_weight_splitlines)
  ultimately show ?thesis using e by linarith
qed

lemma parse_lines_total: "\<exists>fm'. parse_lines ls fm = Inr fm'"
  by (simp add: parse_lines_eq)

lemma splitlines_no_breaks:
  "l \<in> set (splitlines s) \<Longrightarrow> c \<in> set l \<Longrightarrow> \<not> is_linebreak c"
proof (induction s rule: splitlines.induct)
  case (1 s)
  show ?case
  proof (cases "s = []")
    case True
    then show ?thesis using "1.prems" by (simp add: splitlines_Nil)
  next
    case False
    let ?t = "takeWhile (\<lambda>c. \<not> is_linebreak c) s"
    let ?d = "dropWhile (\<lambda>c. \<not> is_linebreak c) s"
    have split: "splitlines s = ?t # splitlines (skip_break ?d)"
      using False by (subst splitlines.simps) simp
    from "1.prems"(1) split have "l = ?t \<or> l \<in> set (splitlines (skip_break ?d))" by simp
    then show ?thesis
    proof
      assume "l = ?t"
      then show ?thesis using "1.prems"(2) by (auto dest: set_takeWhileD)
    next
      assume "l \<in> set (splitlines (skip_break ?d))"
      then show ?thesis using "1.IH" False "1.prems"(2) by simp
    qed
  qed
qed

lemma join_only_LF_breaks:
  assumes "\<forall>l \<in> set ls. \<forall>c \<in> set l. \<not> is_linebreak c"
  shows "\<forall>c \<in> set (join [LF] ls). is_linebreak c \<longrightarrow> c = LF"
  using assms by (induction ls rule: induct_list012) auto

lemma splitlines_append_LF:
  "s \<noteq> [] \<Longrightarrow> \<not> is_linebreak (last s) \<Longrightarrow> splitlines (s @ [LF]) = splitlines s"
proof (induction s rule: splitlines.induct)
  case (1 s)
  let ?nb = "\<lambda>c. \<not> is_linebreak c"
  let ?t = "takeWhile ?nb s"
  let ?d = "dropWhile ?nb s"
  have lf: "is_linebreak LF" by (simp add: is_linebreak_def)
  have split: "splitlines s = ?t # splitlines (skip_break ?d)"
    using "1.prems"(1) by (subst splitlines.simps) simp
  have split': "splitlines (s @ [LF]) =
      takeWhile ?nb (s @ [LF]) # splitlines (skip_break (dropWhile ?nb (s @ [LF])))"
    by (subst splitlines.simps) simp
  show ?case
  proof (cases "\<forall>c \<in> set s. ?nb c")
    case True
    have t: "?t = s" using True by simp
    have d: "?d = []" using True by simp
    have "splitlines (skip_break ?d) = []" by (simp only: d skip_break.simps splitlines_Nil)
    with split t have a: "splitlines s = [s]" by (simp only:)
    have t': "takeWhile ?nb (s @ [LF]) = s" using True lf by (simp add: takeWhile_append2)
    have d': "dropWhile ?nb (s @ [LF]) = [LF]" using True lf by (simp add: dropWhile_append2)
    have "skip_break [LF] = []" by simp
    then have "splitlines (skip_break (dropWhile ?nb (s @ [LF]))) = []"
      by (simp only: d' splitlines_Nil)
    with split' t' have "splitlines (s @ [LF]) = [s]" by (simp only:)
    with a show ?thesis by (simp only:)
  next
    case False
    then have t': "takeWhile ?nb (s @ [LF]) = ?t" and d': "dropWhile ?nb (s @ [LF]) = ?d @ [LF]"
      by (auto simp: takeWhile_append1 dropWhile_append1)
    from False have dne: "?d \<noteq> []" by auto
    then obtain c cs where d: "?d = c # cs" by (cases ?d) auto
    have lastd: "last ?d = last s" using dne
      by (metis last_appendR takeWhile_dropWhile_id)
    have csne: "cs \<noteq> []"
    proof
      assume "cs = []"
      then have "last ?d = c" using d by simp
      moreover have "is_linebreak c" using d by (metis hd_dropWhile list.sel(1) dne)
      ultimately show False using lastd "1.prems"(2) by simp
    qed
    have notonlylf: "\<not> (c = CR \<and> cs = [LF])"
    proof
      assume "c = CR \<and> cs = [LF]"
      then have "last ?d = LF" using d by simp
      then show False using lastd lf "1.prems"(2) by simp
    qed
    have sk: "skip_break (?d @ [LF]) = skip_break ?d @ [LF]"
      using d csne by (cases cs) auto
    have skne: "skip_break ?d \<noteq> []" using d csne notonlylf by (cases cs) (auto split: if_splits)
    have sklast: "last (skip_break ?d) = last ?d" using d csne notonlylf
      by (cases cs) (auto split: if_splits)
    have "splitlines (skip_break ?d @ [LF]) = splitlines (skip_break ?d)"
      using "1.IH" [OF "1.prems"(1) skne] sklast lastd "1.prems"(2) by simp
    then show ?thesis using split split' t' d' sk by simp
  qed
qed

lemma strip_while_ends:
  assumes "strip_while P s \<noteq> []"
  shows "\<not> P (hd (strip_while P s)) \<and> \<not> P (last (strip_while P s))"
proof -
  let ?d = "dropWhile P s"
  let ?r = "dropWhile P (rev ?d)"
  have sw: "strip_while P s = rev ?r" by (simp add: strip_while_def)
  with assms have rne: "?r \<noteq> []" by simp
  then have "\<not> P (hd ?r)" by (rule hd_dropWhile)
  moreover have "last (rev ?r) = hd ?r" using rne by (simp add: last_rev)
  ultimately have l: "\<not> P (last (strip_while P s))" using sw by simp
  have dne: "?d \<noteq> []"
  proof
    assume "?d = []"
    then have "?r = []" by (simp only: rev.simps dropWhile.simps)
    with rne show False ..
  qed
  have "rev ?d = takeWhile P (rev ?d) @ ?r" by simp
  then have "?d = rev ?r @ rev (takeWhile P (rev ?d))"
    by (metis rev_append rev_rev_ident)
  then have "hd ?d = hd (rev ?r)" using rne by (metis hd_append2 rev_is_Nil_conv)
  moreover have "\<not> P (hd ?d)" using dne by (rule hd_dropWhile)
  ultimately have "\<not> P (hd (strip_while P s))" using sw by simp
  with l show ?thesis by simp
qed

lemma startswith_iff: "startswith s p \<longleftrightarrow> (\<exists>rest. s = p @ rest)"
proof
  assume "startswith s p"
  then have "take (length p) s = p" by (simp only: startswith_def)
  then have "s = p @ drop (length p) s" by (metis append_take_drop_id)
  then show "\<exists>rest. s = p @ rest" ..
next
  assume "\<exists>rest. s = p @ rest"
  then show "startswith s p" by (auto simp: startswith_def)
qed

lemma first_line_startswith:
  assumes "startswith text ''---''"
  shows "startswith (hd (splitlines text)) ''---''"
proof -
  from assms obtain rest where t: "text = ''---'' @ rest"
    by (auto simp only: startswith_iff)
  then have "splitlines text = takeWhile (\<lambda>c. \<not> is_linebreak c) text
      # splitlines (skip_break (dropWhile (\<lambda>c. \<not> is_linebreak c) text))"
    by (subst splitlines.simps) simp
  then have "hd (splitlines text) = takeWhile (\<lambda>c. \<not> is_linebreak c) (''---'' @ rest)"
    using t by simp
  also have "\<dots> = ''---'' @ takeWhile (\<lambda>c. \<not> is_linebreak c) rest"
    by (simp add: is_linebreak_def)
  finally show ?thesis by (simp add: startswith_def)
qed

section \<open>Facts about the title loop\<close>

lemma replace_first_prefix:
  "startswith s old \<Longrightarrow> replace_first old new s = new @ drop (length old) s"
  by (cases s) (auto simp: startswith_def)

lemma first_heading_find:
  "first_heading ls =
     map_option (\<lambda>l. str_strip (drop 2 (str_strip l)))
       (find (\<lambda>l. startswith (str_strip l) ''# '') ls)"
  by (induction ls) (simp_all add: Let_def replace_first_prefix numeral_2_eq_2)

lemma str_replace_char:
  "str_replace [a] [b] s = map (\<lambda>c. if c = a then b else c) s"
proof (induction s)
  case Nil
  show ?case by (subst str_replace.simps) simp
next
  case (Cons c cs)
  show ?case
    by (subst str_replace.simps) (simp add: startswith_def Cons.IH)
qed

lemma title_from_pointwise:
  "title_from p s =
     concat (map (\<lambda>i. if (if i = 0 then p else is_cased (s ! (i - 1))) then [to_lower (s ! i)]
                        else to_title (s ! i)) [0..<length s])"
proof (induction s arbitrary: p)
  case Nil
  show ?case by simp
next
  case (Cons c cs)
  let ?f = "\<lambda>i. if (if i = 0 then p else is_cased ((c # cs) ! (i - 1)))
                 then [to_lower ((c # cs) ! i)] else to_title ((c # cs) ! i)"
  let ?g = "\<lambda>i. if (if i = 0 then is_cased c else is_cased (cs ! (i - 1)))
                 then [to_lower (cs ! i)] else to_title (cs ! i)"
  have shift: "?f (Suc i) = ?g i" for i
    by (cases i) simp_all
  have "length (c # cs) = Suc (length cs)" by simp
  then have "map ?f [0..<length (c # cs)] = ?f 0 # map (\<lambda>i. ?f (Suc i)) [0..<length cs]"
    by (simp only: map_upt_Suc)
  also have "map (\<lambda>i. ?f (Suc i)) [0..<length cs] = map ?g [0..<length cs]"
    by (rule map_cong) (simp_all only: shift)
  finally have "concat (map ?f [0..<length (c # cs)])
      = (if p then [to_lower c] else to_title c) @ concat (map ?g [0..<length cs])"
    by simp
  then show ?case by (simp only: title_from.simps Cons.IH [of "is_cased c"])
qed

lemma str_title_pointwise:
  "str_title s =
     concat (map (\<lambda>i. if 0 < i \<and> is_cased (s ! (i - 1)) then [to_lower (s ! i)]
                        else to_title (s ! i)) [0..<length s])"
proof -
  have "(\<lambda>i. if (if i = 0 then False else is_cased (s ! (i - 1))) then [to_lower (s ! i)]
              else to_title (s ! i))
      = (\<lambda>i. if 0 < i \<and> is_cased (s ! (i - 1)) then [to_lower (s ! i)] else to_title (s ! i))"
    by (rule ext) simp
  then show ?thesis by (simp add: str_title_def title_from_pointwise)
qed

lemma path_stem_md:
  assumes "b \<noteq> []"
  shows "path_stem (b @ ''.md'') = b"
proof -
  have "rev (b @ ''.md'') = ''dm.'' @ rev b" by simp
  then have "takeWhile (\<lambda>d. d \<noteq> CHR ''.'') (rev (b @ ''.md'')) = ''dm''" by simp
  then have "rfind (CHR ''.'') (b @ ''.md'') = Some (length b)"
    by (simp add: rfind_def)
  then show ?thesis using assms by (simp add: path_stem_def)
qed

section \<open>Facts about the index loops\<close>




lemma references_loop_files:
  "references_loop rs acc = Inr out \<Longrightarrow>
     map ref_file out = map ref_file acc @ map (\<lambda>r. ''references/'' @ fst r) rs"
proof (induction rs arbitrary: acc)
  case Nil
  then show ?case by simp
next
  case (Cons r rs)
  then show ?case by (auto split: sum.splits)
qed

lemma collect_references_files:
  assumes "collect_references skill_dir = Inr refs"
  shows "\<exists>names. sorted names \<and> map ref_file refs = map (\<lambda>n. ''references/'' @ n) names"
proof (cases "child skill_dir ''references''")
  case None
  then have "refs = []" using assms by (simp add: collect_references_def)
  then show ?thesis by simp
next
  case (Some rd)
  then have "references_loop (sort_key fst (glob_md rd)) [] = Inr refs"
    using assms by (simp add: collect_references_def)
  from references_loop_files [OF this]
  have "map ref_file refs = map (\<lambda>n. ''references/'' @ n) (map fst (sort_key fst (glob_md rd)))"
    by (simp add: comp_def)
  moreover have "sorted (map fst (sort_key fst (glob_md rd)))" by simp
  ultimately show ?thesis by blast
qed


lemma read_text_Inr: "read_text x = Inr t \<longleftrightarrow> x = Some (TextFile t)"
proof (cases x)
  case None
  then show ?thesis by simp
next
  case (Some nd)
  then show ?thesis by (cases nd) auto
qed


text \<open>One pass of the loop body that gets past the three guards.\<close>

lemma skills_loop_step:
  assumes "qualifies d"
  shows "skills_loop (d # rest) acc =
     (case read_text (child (snd d) ''SKILL.md'') of
        Inl e \<Rightarrow> Inl e
      | Inr doc \<Rightarrow>
          (case parse_frontmatter doc of
             Inl e \<Rightarrow> Inl e
           | Inr (fm, body) \<Rightarrow>
               (case collect_references (snd d) of
                  Inl e \<Rightarrow> Inl e
                | Inr refs \<Rightarrow>
                    skills_loop rest
                      (acc @ [\<lparr>name = dict_get fm ''name'' (fst d), folder = fst d,
                               description = str_strip (dict_get fm ''description'' []),
                               references = refs\<rparr>]))))"
  using assms by (auto simp: qualifies_def split: option.splits)

lemma skills_loop_skip:
  "\<not> qualifies d \<Longrightarrow> skills_loop (d # rest) acc = skills_loop rest acc"
  by (auto simp: qualifies_def)

declare skills_loop.simps(2) [simp del]

lemma built_from_mono: "built_from ds s \<Longrightarrow> set ds \<subseteq> set ds' \<Longrightarrow> built_from ds' s"
  unfolding built_from_def by blast

lemma skills_loop_records:
  "skills_loop ds acc = Inr out \<Longrightarrow>
     \<exists>new. out = acc @ new \<and> map folder new = map fst (filter qualifies ds) \<and>
       (\<forall>s \<in> set new. built_from ds s)"
proof (induction ds arbitrary: acc)
  case Nil
  then show ?case by simp
next
  case (Cons d ds)
  have sub: "set ds \<subseteq> set (d # ds)" by auto
  show ?case
  proof (cases "qualifies d")
    case False
    then have "skills_loop ds acc = Inr out" using Cons.prems by (simp add: skills_loop_skip)
    from Cons.IH [OF this] obtain new where
      new: "out = acc @ new" "map folder new = map fst (filter qualifies ds)"
      "\<forall>s \<in> set new. built_from ds s" by blast
    from new(3) have "\<forall>s \<in> set new. built_from (d # ds) s"
      using built_from_mono [OF _ sub] by blast
    with new(1,2) False show ?thesis by auto
  next
    case True
    from Cons.prems obtain doc fm body refs where
      sk: "child (snd d) ''SKILL.md'' = Some (TextFile doc)" and
      pf: "parse_frontmatter doc = Inr (fm, body)" and
      cr: "collect_references (snd d) = Inr refs" and
      rest: "skills_loop ds (acc @ [\<lparr>name = dict_get fm ''name'' (fst d), folder = fst d,
                               description = str_strip (dict_get fm ''description'' []),
                               references = refs\<rparr>]) = Inr out"
      unfolding skills_loop_step [OF True]
      by (auto simp: read_text_Inr split: sum.splits)
    let ?s = "\<lparr>name = dict_get fm ''name'' (fst d), folder = fst d,
               description = str_strip (dict_get fm ''description'' []), references = refs\<rparr>"
    from Cons.IH [OF rest] obtain new where
      new: "out = (acc @ [?s]) @ new" "map folder new = map fst (filter qualifies ds)"
      "\<forall>s \<in> set new. built_from ds s" by blast
    have "(folder ?s, snd d) \<in> set (d # ds)" by simp
    moreover have "qualifies (folder ?s, snd d)" using True by simp
    ultimately have head: "built_from (d # ds) ?s"
      unfolding built_from_def using sk pf cr
      by (intro exI [of _ "snd d"] exI [of _ doc] exI [of _ fm] exI [of _ body]) simp
    from new(3) have tail: "\<forall>s \<in> set new. built_from (d # ds) s"
      using built_from_mono [OF _ sub] by blast
    have "out = acc @ (?s # new)" using new(1) by simp
    moreover have "map folder (?s # new) = map fst (filter qualifies (d # ds))"
      using new(2) True by simp
    moreover have "\<forall>s \<in> set (?s # new). built_from (d # ds) s"
      using head tail by simp
    ultimately show ?thesis by blast
  qed
qed




lemma map_sort_key: "map f (sort_key f xs) = sort (map f xs)"
proof -
  have "mset (map f (sort_key f xs)) = mset (map f xs)" by simp
  moreover have "sorted (map f (sort_key f xs))" by simp
  ultimately show ?thesis by (metis properties_for_sort)
qed

lemma build_index_records:
  assumes "build_index root = Inr skills"
  shows "map folder skills = sort (map fst (filter qualifies root)) \<and>
         (\<forall>s \<in> set skills. built_from root s)"
proof -
  from assms have "skills_loop (sort_key fst root) [] = Inr skills" by (simp add: build_index_def)
  from skills_loop_records [OF this] have
    f: "map folder skills = map fst (filter qualifies (sort_key fst root))" and
    b: "\<forall>s \<in> set skills. built_from (sort_key fst root) s" by auto
  have "map fst (filter qualifies (sort_key fst root)) = sort (map fst (filter qualifies root))"
    by (simp add: filter_sort map_sort_key)
  moreover have "\<forall>s \<in> set skills. built_from root s"
    using b built_from_mono [of "sort_key fst root" _ root] by auto
  ultimately show ?thesis using f by simp
qed



lemma append_le_append: "p @ a \<le> p @ b \<longleftrightarrow> a \<le> (b :: 'a :: linorder list)"
  by (induction p) simp_all

lemma sorted_map_append:
  "sorted (names :: 'a :: linorder list list) \<Longrightarrow> sorted (map (\<lambda>n. p @ n) names)"
  by (induction names) (auto simp: append_le_append)

section \<open>Facts about the order of enumeration\<close>

lemma map_of_insort_key:
  "map_of (insort_key fst x ys) = map_of (x # ys)"
proof (induction ys)
  case Nil
  show ?case by simp
next
  case (Cons y ys)
  show ?case
  proof (cases "fst x \<le> fst y")
    case True
    then show ?thesis by simp
  next
    case False
    then have ne: "fst x \<noteq> fst y" by auto
    have "map_of (insort_key fst x (y # ys)) = (map_of (insort_key fst x ys))(fst y \<mapsto> snd y)"
      using False by simp
    also have "\<dots> = (map_of (x # ys))(fst y \<mapsto> snd y)" by (simp only: Cons.IH)
    also have "\<dots> = map_of (x # y # ys)" using ne by (auto simp: fun_eq_iff)
    finally show ?thesis .
  qed
qed

lemma map_of_sort_key: "map_of (sort_key fst xs) = map_of xs"
  by (induction xs) (simp_all add: map_of_insort_key)

lemma insort_key_map_same_key:
  assumes "\<And>z. k (f z) = k z"
  shows "insort_key k (f x) (map f ys) = map f (insort_key k x ys)"
  by (induction ys) (simp_all add: assms)

lemma sort_key_map_same_key:
  assumes "\<And>z. k (f z) = k z"
  shows "sort_key k (map f xs) = map f (sort_key k xs)"
  using assms by (induction xs) (simp_all add: insort_key_map_same_key)

lemma sort_key_idem: "sort_key k (sort_key k xs) = sort_key k xs"
  by (rule sort_key_id_if_sorted) simp

lemma is_dir_sorted_tree: "is_dir (sorted_tree x) = is_dir x"
  by (cases x) simp_all

lemma map_of_map_prod: "map_of (map (map_prod id g) es) n = map_option g (map_of es n)"
  by (induction es) auto

lemma child_sorted_tree: "child (sorted_tree x) n = map_option sorted_tree (child x n)"
  by (cases x) (simp_all add: map_of_sort_key map_of_map_prod)

lemma read_text_sorted_tree: "read_text (map_option sorted_tree y) = read_text y"
proof (cases y)
  case None
  then show ?thesis by simp
next
  case (Some x)
  then show ?thesis by (cases x) simp_all
qed

lemma infer_title_sorted_tree:
  "infer_title_from_markdown nm (Some (sorted_tree x)) = infer_title_from_markdown nm (Some x)"
  using read_text_sorted_tree [of "Some x"] by (simp add: infer_title_from_markdown_def)

lemma references_loop_sorted_tree:
  "references_loop (map (map_prod id sorted_tree) rs) acc = references_loop rs acc"
  by (induction rs arbitrary: acc) (simp_all add: infer_title_sorted_tree split: sum.splits)

lemma glob_md_sorted_tree:
  "sort_key fst (glob_md (sorted_tree x)) = map (map_prod id sorted_tree) (sort_key fst (glob_md x))"
proof (cases x)
  case (Dir es)
  let ?f = "map_prod id sorted_tree"
  let ?P = "\<lambda>e. endswith (fst e) ''.md''"
  have "sort_key fst (glob_md (sorted_tree x)) = sort_key fst (filter ?P (sort_key fst (map ?f es)))"
    using Dir by simp
  also have "\<dots> = sort_key fst (filter ?P (map ?f es))"
    by (simp only: filter_sort sort_key_idem)
  also have "filter ?P (map ?f es) = map ?f (filter ?P es)"
    by (induction es) auto
  also have "sort_key fst (map ?f (filter ?P es)) = map ?f (sort_key fst (filter ?P es))"
    by (rule sort_key_map_same_key) simp
  finally show ?thesis using Dir by simp
qed simp_all

lemma collect_references_sorted_tree:
  "collect_references (sorted_tree x) = collect_references x"
  by (simp add: collect_references_def child_sorted_tree glob_md_sorted_tree
      references_loop_sorted_tree split: option.splits)

lemma skills_loop_sorted_tree:
  "skills_loop (map (map_prod id sorted_tree) ds) acc = skills_loop ds acc"
proof -
  define f where "f = map_prod (id :: string \<Rightarrow> string) sorted_tree"
  have f1: "fst (f d) = fst d" and f2: "snd (f d) = sorted_tree (snd d)" for d
    by (simp_all add: f_def)
  have r: "read_text (Some (sorted_tree y)) = read_text (Some y)" for y
    using read_text_sorted_tree [of "Some y"] by simp
  have "skills_loop (map f ds) acc = skills_loop ds acc"
  proof (induction ds arbitrary: acc)
    case Nil
    show ?case by simp
  next
    case (Cons d ds)
    show ?case
      by (cases "child (snd d) ''SKILL.md''")
         (simp_all add: skills_loop.simps f1 f2 is_dir_sorted_tree child_sorted_tree
            collect_references_sorted_tree r Cons.IH split: sum.splits)
  qed
  then show ?thesis by (simp only: f_def)
qed

lemma build_index_sorted_entries:
  "build_index (sort_key fst (map (map_prod id sorted_tree) root)) = build_index root"
proof -
  let ?f = "map_prod id sorted_tree"
  have a: "sort_key fst (map ?f root) = map ?f (sort_key fst root)"
    by (rule sort_key_map_same_key) simp
  have "build_index (sort_key fst (map ?f root))
          = skills_loop (sort_key fst (sort_key fst (map ?f root))) []"
    by (simp only: build_index_def)
  also have "\<dots> = skills_loop (sort_key fst (map ?f root)) []"
    by (simp only: sort_key_idem)
  also have "\<dots> = skills_loop (map ?f (sort_key fst root)) []"
    by (simp only: a)
  also have "\<dots> = skills_loop (sort_key fst root) []"
    by (rule skills_loop_sorted_tree)
  finally show ?thesis by (simp only: build_index_def)
qed

lemma filter_key_distinct:
  "distinct (map k ys) \<Longrightarrow> a \<in> set ys \<Longrightarrow> filter (\<lambda>x. k a = k x) ys = [a]"
proof (induction ys)
  case Nil
  then show ?case by simp
next
  case (Cons y ys)
  show ?case
  proof (cases "a = y")
    case True
    have "filter (\<lambda>x. k y = k x) ys = []" using Cons.prems(1) by (auto simp: filter_empty_conv)
    then show ?thesis using True by simp
  next
    case False
    then have a: "a \<in> set ys" using Cons.prems(2) by simp
    then have "k a \<in> k ` set ys" by simp
    moreover have "k y \<notin> k ` set ys" using Cons.prems(1) by simp
    ultimately have "k a \<noteq> k y" by metis
    then show ?thesis using Cons.IH a Cons.prems(1) by simp
  qed
qed

lemma sort_key_permutation:
  assumes "mset ys = mset xs" and "distinct (map k xs)"
  shows "sort_key k ys = sort_key k xs"
proof (rule properties_for_sort_key)
  show "mset (sort_key k xs) = mset ys" using assms(1) by simp
  show "sorted (map k (sort_key k xs))" by simp
next
  fix a assume "a \<in> set (sort_key k xs)"
  then have a: "a \<in> set xs" by simp
  have sxs: "set ys = set xs" using assms(1) by (metis set_mset_mset)
  have "mset (map k ys) = mset (map k xs)" using assms(1) by (metis mset_map)
  then have dys: "distinct (map k ys)" using assms(2) by (metis mset_eq_imp_distinct_iff)
  have "mset (map k (sort_key k xs)) = mset (map k xs)" by simp
  then have dss: "distinct (map k (sort_key k xs))" using assms(2) by (metis mset_eq_imp_distinct_iff)
  have "filter (\<lambda>x. k a = k x) ys = [a]" using dys a sxs by (simp add: filter_key_distinct)
  moreover have "filter (\<lambda>x. k a = k x) (sort_key k xs) = [a]"
    using dss a by (simp add: filter_key_distinct)
  ultimately show "filter (\<lambda>x. k a = k x) (sort_key k xs) = filter (\<lambda>x. k a = k x) ys"
    by simp
qed

lemma sorted_tree_permutation:
  assumes "mset root' = mset root" and "distinct (map fst root)"
  shows "sorted_tree (Dir root') = sorted_tree (Dir root)"
proof -
  let ?f = "map_prod id sorted_tree"
  have "mset (map ?f root') = mset (map ?f root)" using assms(1) by (metis mset_map)
  moreover have "map fst (map ?f root) = map fst root" by simp
  then have "distinct (map fst (map ?f root))" using assms(2) by (simp only:)
  ultimately have "sort_key fst (map ?f root') = sort_key fst (map ?f root)"
    by (rule sort_key_permutation)
  then show ?thesis by simp
qed

text \<open>The definitions a concrete document is evaluated with.\<close>

lemmas parse_eval = parse_frontmatter_def startswith_def splitlines.simps is_linebreak_def
  find_end_index_def str_strip_def strip_while_def isspace_def split_once_def strip_chars_def

section \<open>The claims about \<open>parse_frontmatter\<close>\<close>

text \<open>
  Claim C9. \<open>parse_frontmatter\<close> never raises: every text, well-formed or not, yields a
  pair of a mapping and a body. The one statement of the function that could raise, the
  tuple assignment of line 32, always receives two items, because the line it splits
  contains a colon.
\<close>

theorem parse_frontmatter_never_raises:
  "\<exists>fm body. parse_frontmatter text = Inr (fm, body)"
proof (cases "startswith text ''---''")
  case False
  then show ?thesis by (simp add: parse_frontmatter_def)
next
  case True
  show ?thesis
  proof (cases "find_end_index (splitlines text)")
    case None
    then show ?thesis using True by (simp add: parse_frontmatter_def)
  next
    case (Some e)
    from parse_lines_total obtain fm
      where "parse_lines (take (e - 1) (drop 1 (splitlines text))) Map.empty = Inr fm" by blast
    then show ?thesis using True Some by (simp add: parse_frontmatter_def)
  qed
qed

text \<open>
  Claim C2, as the code has it. The test of line 12 is \<open>text.startswith("---")\<close>, a test on
  the first three characters and not on the first line. \<open>parse_frontmatter\<close> returns the
  empty mapping with the text unchanged in exactly two cases: the text does not begin with
  the three characters \<open>---\<close>, or it does and no line after the first one equals \<open>---\<close> once
  stripped. In every other case the body is shorter than the text.
\<close>

theorem parse_frontmatter_unchanged_iff:
  "parse_frontmatter text = Inr (Map.empty, text) \<longleftrightarrow>
     (\<not> startswith text ''---'' \<or>
      (\<forall>l \<in> set (drop 1 (splitlines text)). str_strip l \<noteq> ''---''))"
proof (cases "startswith text ''---''")
  case False
  then show ?thesis by (simp add: parse_frontmatter_def)
next
  case True
  show ?thesis
  proof (cases "find_end_index (splitlines text)")
    case None
    then have "\<forall>l \<in> set (drop 1 (splitlines text)). str_strip l \<noteq> ''---''"
      by (simp only: find_end_index_None)
    moreover have "parse_frontmatter text = Inr (Map.empty, text)"
      using True None by (simp add: parse_frontmatter_def)
    ultimately show ?thesis by simp
  next
    case (Some e)
    then have "\<not> (\<forall>l \<in> set (drop 1 (splitlines text)). str_strip l \<noteq> ''---'')"
      using find_end_index_None [of "splitlines text"] by simp
    moreover have "join [LF] (drop (Suc e) (splitlines text)) \<noteq> text"
      using success_body_shorter [OF Some] by auto
    then have "parse_frontmatter text \<noteq> Inr (Map.empty, text)"
      using parse_frontmatter_success [OF True Some] by simp
    ultimately show ?thesis using True by simp
  qed
qed

text \<open>The second case at work: an opening delimiter that is never closed.\<close>

theorem parse_frontmatter_unchanged_iff_witness:
  "parse_frontmatter ''---\<newline>name: x'' = Inr (Map.empty, ''---\<newline>name: x'')"
  using parse_frontmatter_unchanged_iff [of "''---\<newline>name: x''"]
  by (simp add: startswith_def splitlines.simps is_linebreak_def str_strip_def strip_while_def
      isspace_def)

text \<open>
  Claim C2 as it is worded fails: the first line of this text is \<open>---x\<close>, which is not the
  delimiter line, and yet the header is recognised and the body is cut down to \<open>Body\<close>.
\<close>

theorem first_line_not_delimiter_counterexample:
  "hd (splitlines ''---x\<newline>---\<newline>Body'') = ''---x'' \<and>
   parse_frontmatter ''---x\<newline>---\<newline>Body'' = Inr (Map.empty, ''Body'')"
  by (simp add: parse_eval)

text \<open>
  Claim C1, as the code has it. Line 33 strips the value with \<open>strip('"')\<close>, which removes
  every double quote at the head and every double quote at the tail of the trimmed value,
  each end on its own. For a text that begins with \<open>---\<close> and has its closing delimiter at
  line \<open>e\<close>, the mapping holds exactly the header lines that contain a colon: each is cut at
  its first colon, the key is the trimmed left part, the value is the trimmed right part
  without its leading and trailing double quotes, and a later line overrides an earlier
  one with the same key. Lines without a colon add nothing, and no value of the mapping
  begins or ends with a double quote.
\<close>

theorem header_lines_mapping:
  assumes "startswith text ''---''" and "find_end_index (splitlines text) = Some e"
  shows "\<exists>fm body. parse_frontmatter text = Inr (fm, body) \<and>
     fm = map_of (rev (map (\<lambda>l. (str_strip (takeWhile (\<lambda>c. c \<noteq> CHR '':'') l),
                                 strip_while (\<lambda>c. c = DQ)
                                   (str_strip (drop 1 (dropWhile (\<lambda>c. c \<noteq> CHR '':'') l)))))
                      (filter (\<lambda>l. CHR '':'' \<in> set l)
                         (take (e - 1) (drop 1 (splitlines text)))))) \<and>
     (\<forall>v \<in> ran fm. v \<noteq> [] \<longrightarrow> hd v \<noteq> DQ \<and> last v \<noteq> DQ)"
proof -
  let ?kv = "\<lambda>l. (str_strip (takeWhile (\<lambda>c. c \<noteq> CHR '':'') l),
                  strip_while (\<lambda>c. c = DQ) (str_strip (drop 1 (dropWhile (\<lambda>c. c \<noteq> CHR '':'') l))))"
  let ?hs = "filter (\<lambda>l. CHR '':'' \<in> set l) (take (e - 1) (drop 1 (splitlines text)))"
  let ?fm = "map_of (rev (map ?kv ?hs))"
  have p: "parse_frontmatter text = Inr (?fm, join [LF] (drop (Suc e) (splitlines text)))"
    using parse_frontmatter_success [OF assms] by (simp add: strip_chars_def)
  have "\<forall>v \<in> ran ?fm. v \<noteq> [] \<longrightarrow> hd v \<noteq> DQ \<and> last v \<noteq> DQ"
  proof (intro ballI impI)
    fix v assume v: "v \<in> ran ?fm" and ne: "v \<noteq> []"
    then obtain k where "?fm k = Some v" by (auto simp: ran_def)
    then have "(k, v) \<in> set (rev (map ?kv ?hs))" by (rule map_of_SomeD)
    then obtain l where "v = strip_while (\<lambda>c. c = DQ) (str_strip (drop 1 (dropWhile (\<lambda>c. c \<noteq> CHR '':'') l)))"
      by auto
    with ne strip_while_ends [of "\<lambda>c. c = DQ" "str_strip (drop 1 (dropWhile (\<lambda>c. c \<noteq> CHR '':'') l))"]
    show "hd v \<noteq> DQ \<and> last v \<noteq> DQ" by simp
  qed
  with p show ?thesis by blast
qed

text \<open>A header with spaces around the key, a quoted value, a line without a colon and a
  value that holds colons itself.\<close>

theorem header_lines_mapping_witness:
  \<open>parse_frontmatter ''---\<newline> title : "T" \<newline>no colon here\<newline>a:b:c\<newline>---\<newline>B''
     = Inr ([''title'' \<mapsto> ''T'', ''a'' \<mapsto> ''b:c''], ''B'')\<close>
  using header_lines_mapping [of "''---\<newline> title : \"T\" \<newline>no colon here\<newline>a:b:c\<newline>---\<newline>B''" 4]
  by (simp add: parse_eval)

text \<open>
  Claim C1 as it is worded fails: a value quoted at one end only loses that quote, and a
  value in two layers of quotes loses both layers.
\<close>

theorem quote_stripping_counterexample:
  \<open>parse_frontmatter ''---\<newline>k: "v\<newline>---\<newline>'' = Inr ([''k'' \<mapsto> ''v''], []) \<and>
   spec_unquote_one_layer (str_strip '' "v'') = ''"v'' \<and>
   parse_frontmatter ''---\<newline>k: ""v""\<newline>---\<newline>'' = Inr ([''k'' \<mapsto> ''v''], []) \<and>
   spec_unquote_one_layer (str_strip '' ""v""'') = ''"v"''\<close>
  by (simp add: parse_eval spec_unquote_one_layer_def)

text \<open>
  Claim C3. In the success branch (the text begins with \<open>---\<close> and \<open>e\<close> is the index of the
  first later line that strips to \<open>---\<close>) the body is the lines after line \<open>e\<close> joined with
  newlines: line 0, the opening delimiter, the header lines 1 to \<open>e - 1\<close> and line \<open>e\<close>, the
  closing delimiter, are left out. The document with header line \<open>name: "Foo"\<close> and body
  \<open>Body text\<close> gives the mapping \<open>{name: Foo}\<close> and the body \<open>Body text\<close>.
\<close>

theorem success_body:
  assumes "startswith text ''---''" and "find_end_index (splitlines text) = Some e"
  shows \<open>1 \<le> e \<and> e < length (splitlines text) \<and>
     startswith (hd (splitlines text)) ''---'' \<and>
     str_strip (splitlines text ! e) = ''---'' \<and>
     (\<forall>j. 1 \<le> j \<and> j < e \<longrightarrow> str_strip (splitlines text ! j) \<noteq> ''---'') \<and>
     (\<exists>fm. parse_frontmatter text = Inr (fm, join [LF] (drop (Suc e) (splitlines text)))) \<and>
     parse_frontmatter ''---\<newline>name: "Foo"\<newline>---\<newline>Body text''
       = Inr ([''name'' \<mapsto> ''Foo''], ''Body text'')\<close>
proof -
  have ex: \<open>parse_frontmatter ''---\<newline>name: "Foo"\<newline>---\<newline>Body text''
       = Inr ([''name'' \<mapsto> ''Foo''], ''Body text'')\<close>
    by (simp add: parse_eval)
  have "\<exists>fm. parse_frontmatter text = Inr (fm, join [LF] (drop (Suc e) (splitlines text)))"
    using parse_frontmatter_success [OF assms] by blast
  with find_end_index_Some [OF assms(2)] first_line_startswith [OF assms(1)] ex
  show ?thesis by blast
qed

text \<open>A closing delimiter with spaces around it and a body of three lines.\<close>

theorem success_body_witness:
  "parse_frontmatter ''---\<newline>a: 1\<newline> --- \<newline>one\<newline>\<newline>two'' = Inr ([''a'' \<mapsto> ''1''], ''one\<newline>\<newline>two'')"
  using success_body [of "''---\<newline>a: 1\<newline> --- \<newline>one\<newline>\<newline>two''" 2]
  by (simp add: parse_eval)

text \<open>
  Claim C10. In the success branch the body is built from the split lines, so the only line
  boundaries left in it are the newlines that \<open>join\<close> puts between the lines; a newline
  added at the end of a text that does not end in a line boundary changes nothing; and for
  the text \<open>---\n k: v\n ---\n Body\n\<close> (without the spaces) the body is \<open>Body\<close>.
\<close>

theorem body_line_endings:
  assumes "startswith text ''---''" and "find_end_index (splitlines text) = Some e"
  shows "(\<exists>fm body. parse_frontmatter text = Inr (fm, body) \<and>
            body = join [LF] (drop (Suc e) (splitlines text)) \<and>
            (\<forall>c \<in> set body. is_linebreak c \<longrightarrow> c = LF)) \<and>
         (\<not> is_linebreak (last text) \<longrightarrow> parse_frontmatter (text @ [LF]) = parse_frontmatter text) \<and>
         parse_frontmatter ''---\<newline>k: v\<newline>---\<newline>Body\<newline>'' = Inr ([''k'' \<mapsto> ''v''], ''Body'')"
proof -
  have ex: "parse_frontmatter ''---\<newline>k: v\<newline>---\<newline>Body\<newline>'' = Inr ([''k'' \<mapsto> ''v''], ''Body'')"
    by (simp add: parse_eval)
  have "\<forall>l \<in> set (drop (Suc e) (splitlines text)). \<forall>c \<in> set l. \<not> is_linebreak c"
    using splitlines_no_breaks by (meson in_set_dropD)
  then have "\<forall>c \<in> set (join [LF] (drop (Suc e) (splitlines text))). is_linebreak c \<longrightarrow> c = LF"
    by (rule join_only_LF_breaks)
  then have a: "\<exists>fm body. parse_frontmatter text = Inr (fm, body) \<and>
            body = join [LF] (drop (Suc e) (splitlines text)) \<and>
            (\<forall>c \<in> set body. is_linebreak c \<longrightarrow> c = LF)"
    using parse_frontmatter_success [OF assms] by blast
  have b: "\<not> is_linebreak (last text) \<longrightarrow> parse_frontmatter (text @ [LF]) = parse_frontmatter text"
  proof
    assume nl: "\<not> is_linebreak (last text)"
    have ne: "text \<noteq> []" using assms(1) by (auto simp only: startswith_iff)
    have sl: "splitlines (text @ [LF]) = splitlines text"
      using splitlines_append_LF [OF ne nl] .
    have sw: "startswith (text @ [LF]) ''---''"
      using assms(1) unfolding startswith_iff by (metis append_assoc)
    have "parse_frontmatter (text @ [LF]) = parse_frontmatter text"
      using parse_frontmatter_success [OF sw, of e] parse_frontmatter_success [OF assms] sl assms(2)
      by simp
    then show "parse_frontmatter (text @ [LF]) = parse_frontmatter text" .
  qed
  from a b ex show ?thesis by blast
qed

text \<open>A document with CR LF and CR line endings.\<close>

theorem body_line_endings_witness:
  "parse_frontmatter (''---'' @ [CR, LF] @ ''k: v'' @ [CR, LF] @ ''---'' @ [CR, LF] @ ''A'' @ [CR, LF] @ ''B'' @ [CR] @ ''C'' @ [LF])
     = Inr ([''k'' \<mapsto> ''v''], ''A\<newline>B\<newline>C'')"
  using body_line_endings [of "''---'' @ [CR, LF] @ ''k: v'' @ [CR, LF] @ ''---'' @ [CR, LF] @ ''A'' @ [CR, LF] @ ''B'' @ [CR] @ ''C''" 2]
  by (simp add: parse_eval)

section \<open>The claim about \<open>infer_title_from_markdown\<close>\<close>

text \<open>The definitions a concrete file is evaluated with.\<close>

lemmas title_eval = infer_title_from_markdown_def title_from_name_def path_stem_def rfind_def
  str_title_def is_cased_def to_lower_def to_title_def code_points_def str_replace_char
  splitlines.simps is_linebreak_def str_strip_def strip_while_def isspace_def startswith_def

text \<open>
  Claim C7. For a file that exists and reads as text: when \<open>l\<close> is the first line that,
  once stripped, begins with \<open># \<close>, the title is that stripped line without its first two
  characters, stripped again (the first occurrence of \<open># \<close> that \<open>replace\<close> removes is the
  prefix); when no line does, the title is the fallback. For a file that does not exist the
  title is the fallback too. The fallback is the stem of the file name (for a name \<open>b.md\<close>,
  \<open>b\<close>) with every hyphen turned into a space, title-cased: each character is lowered when
  the character before it is cased, and title-cased otherwise, so that a word begins with
  a capital and goes on in small letters. The title case of the probe pins the cased
  ranges; the two examples of the spec follow, and names with capitals, digits and Latin-1
  letters.
\<close>

theorem infer_title:
  "(find (\<lambda>l. startswith (str_strip l) ''# '') (splitlines text) = Some l \<longrightarrow>
      infer_title_from_markdown nm (Some (TextFile text))
        = Inr (code_points (str_strip (drop 2 (str_strip l))))) \<and>
   (find (\<lambda>l. startswith (str_strip l) ''# '') (splitlines text) = None \<longrightarrow>
      infer_title_from_markdown nm (Some (TextFile text))
        = Inr (str_title (map (\<lambda>c. if c = CHR ''-'' then CHR '' '' else c) (path_stem nm)))) \<and>
   infer_title_from_markdown nm None
     = Inr (str_title (map (\<lambda>c. if c = CHR ''-'' then CHR '' '' else c) (path_stem nm))) \<and>
   (b \<noteq> [] \<longrightarrow> path_stem (b @ ''.md'') = b) \<and>
   str_title s =
     concat (map (\<lambda>i. if 0 < i \<and> is_cased (s ! (i - 1)) then [to_lower (s ! i)]
                        else to_title (s ! i)) [0..<length s]) \<and>
   str_title (concat (map (\<lambda>c. [c, CHR ''X'', CHR '' '']) casing_probe)) =
     [64, 88, 32, 65, 120, 32, 90, 120, 32, 91, 88, 32, 96, 88, 32, 65,
      120, 32, 90, 120, 32, 123, 88, 32, 169, 88, 32, 170, 120, 32, 171, 88,
      32, 180, 88, 32, 924, 120, 32, 182, 88, 32, 185, 88, 32, 186, 120, 32,
      187, 88, 32, 191, 88, 32, 192, 120, 32, 214, 120, 32, 215, 88, 32, 216,
      120, 32, 222, 120, 32, 83, 115, 120, 32, 192, 120, 32, 214, 120, 32, 247,
      88, 32, 216, 120, 32, 222, 120, 32, 376, 120, 32] \<and>
   str_title (concat (map (\<lambda>c. [CHR ''a'', c, CHR '' '']) casing_probe)) =
     [65, 64, 32, 65, 97, 32, 65, 122, 32, 65, 91, 32, 65, 96, 32, 65,
      97, 32, 65, 122, 32, 65, 123, 32, 65, 169, 32, 65, 170, 32, 65, 171,
      32, 65, 180, 32, 65, 181, 32, 65, 182, 32, 65, 185, 32, 65, 186, 32,
      65, 187, 32, 65, 191, 32, 65, 224, 32, 65, 246, 32, 65, 215, 32, 65,
      248, 32, 65, 254, 32, 65, 223, 32, 65, 224, 32, 65, 246, 32, 65, 247,
      32, 65, 248, 32, 65, 254, 32, 65, 255, 32] \<and>
   infer_title_from_markdown ''x.md'' (Some (TextFile ''# Hello World\<newline>more text''))
     = Inr (code_points ''Hello World'') \<and>
   infer_title_from_markdown ''my-skill-name.md'' None = Inr (code_points ''My Skill Name'') \<and>
   infer_title_from_markdown ''my-SKILL-nAME.md'' None = Inr (code_points ''My Skill Name'') \<and>
   infer_title_from_markdown ''api2go-v1.0x.md'' None = Inr (code_points ''Api2Go V1.0X'') \<and>
   infer_title_from_markdown ([CHR 0xE9, CHR ''t'', CHR 0xE9, CHR ''-'', CHR 0xE0] @ ''.md'') None
     = Inr [0xC9, 0x74, 0xE9, 0x20, 0xC0] \<and>
   infer_title_from_markdown
       ([CHR 0xFF, CHR ''e'', CHR ''s'', CHR ''-'', CHR 0xB5, CHR ''-'', CHR 0xDF, CHR ''x''] @ ''.md'') None
     = Inr [0x178, 0x65, 0x73, 0x20, 0x39C, 0x20, 0x53, 0x73, 0x78] \<and>
   infer_title_from_markdown
       ([CHR 0xC0, CHR 0xC9, CHR 0xD6, CHR 0xD8, CHR 0xDE, CHR ''-'', CHR 0xAA, CHR ''B'', CHR ''-'',
         CHR 0xBA, CHR ''C'', CHR ''-'', CHR 0xF7, CHR ''d'', CHR ''-'', CHR 0xD7, CHR ''E''] @ ''.md'') None
     = Inr [0xC0, 0xE9, 0xF6, 0xF8, 0xFE, 0x20, 0xAA, 0x62, 0x20, 0xBA, 0x63, 0x20, 0xF7, 0x44,
            0x20, 0xD7, 0x45]"
proof -
  have fallback: "title_from_name nm = str_title (map (\<lambda>c. if c = CHR ''-'' then CHR '' '' else c) (path_stem nm))"
    by (simp add: title_from_name_def str_replace_char)
  have a: "find (\<lambda>l. startswith (str_strip l) ''# '') (splitlines text) = Some l \<longrightarrow>
      infer_title_from_markdown nm (Some (TextFile text))
        = Inr (code_points (str_strip (drop 2 (str_strip l))))"
    by (simp add: infer_title_from_markdown_def first_heading_find)
  have b: "find (\<lambda>l. startswith (str_strip l) ''# '') (splitlines text) = None \<longrightarrow>
      infer_title_from_markdown nm (Some (TextFile text))
        = Inr (str_title (map (\<lambda>c. if c = CHR ''-'' then CHR '' '' else c) (path_stem nm)))"
    by (simp add: infer_title_from_markdown_def first_heading_find fallback)
  have c: "infer_title_from_markdown nm None
     = Inr (str_title (map (\<lambda>c. if c = CHR ''-'' then CHR '' '' else c) (path_stem nm)))"
    by (simp add: infer_title_from_markdown_def fallback)
  have d: "b \<noteq> [] \<longrightarrow> path_stem (b @ ''.md'') = b" by (simp add: path_stem_md)
  have t: "str_title s =
     concat (map (\<lambda>i. if 0 < i \<and> is_cased (s ! (i - 1)) then [to_lower (s ! i)]
                        else to_title (s ! i)) [0..<length s])"
    by (rule str_title_pointwise)
  have p1: "str_title (concat (map (\<lambda>c. [c, CHR ''X'', CHR '' '']) casing_probe)) =
     [64, 88, 32, 65, 120, 32, 90, 120, 32, 91, 88, 32, 96, 88, 32, 65,
      120, 32, 90, 120, 32, 123, 88, 32, 169, 88, 32, 170, 120, 32, 171, 88,
      32, 180, 88, 32, 924, 120, 32, 182, 88, 32, 185, 88, 32, 186, 120, 32,
      187, 88, 32, 191, 88, 32, 192, 120, 32, 214, 120, 32, 215, 88, 32, 216,
      120, 32, 222, 120, 32, 83, 115, 120, 32, 192, 120, 32, 214, 120, 32, 247,
      88, 32, 216, 120, 32, 222, 120, 32, 376, 120, 32]"
    by (simp add: casing_probe_def title_eval)
  have p2: "str_title (concat (map (\<lambda>c. [CHR ''a'', c, CHR '' '']) casing_probe)) =
     [65, 64, 32, 65, 97, 32, 65, 122, 32, 65, 91, 32, 65, 96, 32, 65,
      97, 32, 65, 122, 32, 65, 123, 32, 65, 169, 32, 65, 170, 32, 65, 171,
      32, 65, 180, 32, 65, 181, 32, 65, 182, 32, 65, 185, 32, 65, 186, 32,
      65, 187, 32, 65, 191, 32, 65, 224, 32, 65, 246, 32, 65, 215, 32, 65,
      248, 32, 65, 254, 32, 65, 223, 32, 65, 224, 32, 65, 246, 32, 65, 247,
      32, 65, 248, 32, 65, 254, 32, 65, 255, 32]"
    by (simp add: casing_probe_def title_eval)
  have e: "infer_title_from_markdown ''x.md'' (Some (TextFile ''# Hello World\<newline>more text''))
     = Inr (code_points ''Hello World'')"
    by (simp add: title_eval)
  have f: "infer_title_from_markdown ''my-skill-name.md'' None = Inr (code_points ''My Skill Name'')"
    by (simp add: title_eval)
  have g: "infer_title_from_markdown ''my-SKILL-nAME.md'' None = Inr (code_points ''My Skill Name'')"
    by (simp add: title_eval)
  have h: "infer_title_from_markdown ''api2go-v1.0x.md'' None = Inr (code_points ''Api2Go V1.0X'')"
    by (simp add: title_eval)
  have i: "infer_title_from_markdown ([CHR 0xE9, CHR ''t'', CHR 0xE9, CHR ''-'', CHR 0xE0] @ ''.md'') None
     = Inr [0xC9, 0x74, 0xE9, 0x20, 0xC0]"
    by (simp add: title_eval)
  have j: "infer_title_from_markdown
       ([CHR 0xFF, CHR ''e'', CHR ''s'', CHR ''-'', CHR 0xB5, CHR ''-'', CHR 0xDF, CHR ''x''] @ ''.md'') None
     = Inr [0x178, 0x65, 0x73, 0x20, 0x39C, 0x20, 0x53, 0x73, 0x78]"
    by (simp add: title_eval)
  have k: "infer_title_from_markdown
       ([CHR 0xC0, CHR 0xC9, CHR 0xD6, CHR 0xD8, CHR 0xDE, CHR ''-'', CHR 0xAA, CHR ''B'', CHR ''-'',
         CHR 0xBA, CHR ''C'', CHR ''-'', CHR 0xF7, CHR ''d'', CHR ''-'', CHR 0xD7, CHR ''E''] @ ''.md'') None
     = Inr [0xC0, 0xE9, 0xF6, 0xF8, 0xFE, 0x20, 0xAA, 0x62, 0x20, 0xBA, 0x63, 0x20, 0xF7, 0x44,
            0x20, 0xD7, 0x45]"
    by (simp add: title_eval)
  from a b c d t p1 p2 e f g h i j k show ?thesis by blast
qed

text \<open>A heading after an intro line, with spaces around it; a file whose lines only look
  like headings; and a name that does not end in \<open>.md\<close>.\<close>

theorem infer_title_witness:
  "infer_title_from_markdown ''api-notes.md''
       (Some (TextFile ''intro\<newline>  # The  API #  \<newline># Second'')) = Inr (code_points ''The  API #'') \<and>
   infer_title_from_markdown ''api-notes.md'' (Some (TextFile ''#no space\<newline>## two''))
     = Inr (code_points ''Api Notes'') \<and>
   infer_title_from_markdown ''READ-ME'' None = Inr (code_points ''Read Me'')"
  using infer_title [of "''intro\<newline>  # The  API #  \<newline># Second''" "''  # The  API #  ''" "''api-notes.md''" "''api-notes''" "''api notes''"]
    infer_title [of "''#no space\<newline>## two''" "[]" "''api-notes.md''" "''api-notes''" "''READ ME''"]
  by (simp add: title_eval)

section \<open>The claims about \<open>build_index\<close>\<close>

text \<open>The definitions a concrete root is evaluated with, and the index of the example.\<close>

lemmas index_eval = build_index_def skills_loop.simps reserved_names_def collect_references_def
  endswith_def dict_get_def parse_eval title_eval

lemma example_index:
  "build_index example_root =
     Inr [\<lparr>name = ''Alpha'', folder = ''a'', description = ''desc'',
           references = [\<lparr>ref_title = code_points ''One'', ref_file = ''references/one.md''\<rparr>,
                         \<lparr>ref_title = code_points ''Two'', ref_file = ''references/two.md''\<rparr>]\<rparr>,
          \<lparr>name = [], folder = ''b'', description = [], references = []\<rparr>]"
  by (simp add: example_root_def index_eval)




text \<open>
  Claim C4, as the code has it. Every record of the index comes from an entry of the root
  named as its \<open>folder\<close>, whose \<open>SKILL.md\<close> parses to a mapping \<open>fm\<close>: \<open>name\<close> is the value
  of the key \<open>name\<close> whenever the key is in the mapping, whatever the value, and the folder
  name only when the key is absent; \<open>description\<close> is the stripped value of the key
  \<open>description\<close>, and empty when the key is absent.
\<close>

theorem build_index_name_description:
  assumes "build_index root = Inr skills"
  shows "\<forall>s \<in> set skills. \<exists>nd doc fm body.
           (folder s, nd) \<in> set root \<and>
           child nd ''SKILL.md'' = Some (TextFile doc) \<and>
           parse_frontmatter doc = Inr (fm, body) \<and>
           name s = (case fm ''name'' of Some v \<Rightarrow> v | None \<Rightarrow> folder s) \<and>
           description s = str_strip (case fm ''description'' of Some v \<Rightarrow> v | None \<Rightarrow> [])"
proof
  fix s assume "s \<in> set skills"
  with build_index_records [OF assms] have "built_from root s" by blast
  then show "\<exists>nd doc fm body.
           (folder s, nd) \<in> set root \<and>
           child nd ''SKILL.md'' = Some (TextFile doc) \<and>
           parse_frontmatter doc = Inr (fm, body) \<and>
           name s = (case fm ''name'' of Some v \<Rightarrow> v | None \<Rightarrow> folder s) \<and>
           description s = str_strip (case fm ''description'' of Some v \<Rightarrow> v | None \<Rightarrow> [])"
    unfolding built_from_def dict_get_def by blast
qed

theorem build_index_name_description_witness:
  "\<exists>nd doc fm body.
      (''a'', nd) \<in> set example_root \<and>
      child nd ''SKILL.md'' = Some (TextFile doc) \<and>
      parse_frontmatter doc = Inr (fm, body) \<and>
      ''Alpha'' = (case fm ''name'' of Some v \<Rightarrow> v | None \<Rightarrow> ''a'') \<and>
      ''desc'' = str_strip (case fm ''description'' of Some v \<Rightarrow> v | None \<Rightarrow> [])"
proof -
  let ?s = "\<lparr>name = ''Alpha'', folder = ''a'', description = ''desc'',
           references = [\<lparr>ref_title = code_points ''One'', ref_file = ''references/one.md''\<rparr>,
                         \<lparr>ref_title = code_points ''Two'', ref_file = ''references/two.md''\<rparr>]\<rparr>"
  have "?s \<in> set [?s, \<lparr>name = [], folder = ''b'', description = [], references = []\<rparr>]"
    by simp
  with build_index_name_description [OF example_index]
  have "\<exists>nd doc fm body.
           (folder ?s, nd) \<in> set example_root \<and>
           child nd ''SKILL.md'' = Some (TextFile doc) \<and>
           parse_frontmatter doc = Inr (fm, body) \<and>
           name ?s = (case fm ''name'' of Some v \<Rightarrow> v | None \<Rightarrow> folder ?s) \<and>
           description ?s = str_strip (case fm ''description'' of Some v \<Rightarrow> v | None \<Rightarrow> [])"
    by (rule bspec)
  then show ?thesis by (simp cong: option.case_cong)
qed

text \<open>
  Claim C4 as it is worded fails for a name that is present and not set: the header line
  \<open>name:\<close> puts the key in the mapping with an empty value, and the record's name is empty,
  not the folder name \<open>a\<close>.
\<close>

theorem empty_name_counterexample:
  "parse_frontmatter ''---\<newline>name:\<newline>---\<newline>'' = Inr ([''name'' \<mapsto> []], []) \<and>
   build_index [(''a'', Dir [(''SKILL.md'', TextFile ''---\<newline>name:\<newline>---\<newline>'')])]
     = Inr [\<lparr>name = [], folder = ''a'', description = [], references = []\<rparr>]"
  by (simp add: index_eval)

text \<open>
  Claim C6. The folders of the records are in ascending order, and in every record the
  files of the references are in ascending order: they are the sorted file names, each
  behind the prefix \<open>references/\<close>. The order is the lexicographic order of the code points.
\<close>

theorem build_index_sorted:
  assumes "build_index root = Inr skills"
  shows "sorted (map folder skills) \<and>
         (\<forall>s \<in> set skills.
            sorted (map ref_file (references s)) \<and>
            (\<exists>names. sorted names \<and>
               map ref_file (references s) = map (\<lambda>n. ''references/'' @ n) names))"
proof -
  from build_index_records [OF assms] have
    f: "map folder skills = sort (map fst (filter qualifies root))" and
    b: "\<forall>s \<in> set skills. built_from root s" by auto
  have "sorted (map folder skills)" unfolding f by simp
  moreover have "\<forall>s \<in> set skills.
            sorted (map ref_file (references s)) \<and>
            (\<exists>names. sorted names \<and>
               map ref_file (references s) = map (\<lambda>n. ''references/'' @ n) names)"
  proof
    fix s assume "s \<in> set skills"
    with b obtain nd where "collect_references nd = Inr (references s)"
      unfolding built_from_def by blast
    from collect_references_files [OF this] obtain names where
      n: "sorted names" "map ref_file (references s) = map (\<lambda>n. ''references/'' @ n) names"
      by blast
    then have "sorted (map ref_file (references s))"
      using sorted_map_append [of names "''references/''"] by (simp only:)
    with n show "sorted (map ref_file (references s)) \<and>
            (\<exists>names. sorted names \<and>
               map ref_file (references s) = map (\<lambda>n. ''references/'' @ n) names)" by blast
  qed
  ultimately show ?thesis by simp
qed

theorem build_index_sorted_witness:
  "sorted [''a'', ''b''] \<and> sorted [''references/one.md'', ''references/two.md'']"
  using build_index_sorted [OF example_index] by simp

text \<open>
  Claim C8. The result of \<open>build_index\<close>, and with it the text that \<open>main\<close> writes, depends
  on the tree only and not on the order in which a directory lists its entries: two roots
  with the same sorted tree give the same result, record list or error. Two listings of a
  root whose names are distinct have the same sorted tree.
\<close>

theorem build_index_deterministic:
  "(sorted_tree (Dir root) = sorted_tree (Dir root') \<longrightarrow>
      build_index root = build_index root' \<and> index_text dumps root = index_text dumps root') \<and>
   (mset root' = mset root \<and> distinct (map fst root) \<longrightarrow>
      sorted_tree (Dir root') = sorted_tree (Dir root))"
proof -
  have "build_index root = build_index root' \<and> index_text dumps root = index_text dumps root'"
    if "sorted_tree (Dir root) = sorted_tree (Dir root')"
  proof -
    from that have "sort_key fst (map (map_prod id sorted_tree) root)
        = sort_key fst (map (map_prod id sorted_tree) root')" by simp
    then have "build_index root = build_index root'"
      using build_index_sorted_entries [of root] build_index_sorted_entries [of root'] by simp
    then show ?thesis by (simp add: index_text_def)
  qed
  then show ?thesis using sorted_tree_permutation [of root' root] by blast
qed

text \<open>The example and the same tree listed in another order, in the root and below it.\<close>

theorem build_index_deterministic_witness:
  "build_index example_root_reordered = build_index example_root"
  using build_index_deterministic [of example_root_reordered example_root]
  by (simp add: example_root_def example_root_reordered_def)

end
